theory Spec2Isabelle
  imports Main
begin

section \<open>The DonationTracker contract (contracts/DonationTracker.sol)\<close>

text \<open>
  The contract is embedded as functions on an explicit record of its storage.
  \<^item> A Solidity \<open>mapping\<close> is total and reads the zero value at a key never written:
    it is a HOL function, and the initial mappings are constant at the zero struct.
  \<^item> \<open>uint256\<close> values are natural numbers; the arithmetic of Solidity 0.8 is
    checked, so every \<open>+=\<close>, \<open>-=\<close> and \<open>++\<close> on storage is written with
    \<open>checked_add\<close> / \<open>checked_sub\<close>, which fail with \<open>Panic 17\<close> (0x11)
    outside \<open>0 .. 2^256 - 1\<close>.
  \<^item> An \<open>address\<close> is a natural number; \<open>0\<close> is \<open>address(0)\<close>. Only equality
    of addresses is ever used.
  \<^item> A call either returns (\<open>Inr\<close> the new storage) or reverts (\<open>Inl\<close> the
    reason). A revert discards every effect of the call, so the storage after a
    reverted call is the storage before it (\<open>apply_tx\<close>).
  \<^item> Gas is not modelled: a call has the gas it needs.
  \<^item> \<open>msg.sender\<close> and \<open>block.timestamp\<close> come with the call (\<open>ctx\<close>).
    \<open>msg.value\<close> is an argument of \<open>donate\<close>, the only payable function.
  \<^item> The ether held by the contract, \<open>address(this).balance\<close>, is the field
    \<open>balance\<close>. It is not a storage variable of the contract: \<open>donate\<close> raises
    it, the payout of \<open>withdraw\<close> lowers it, and it also rises with no code of the
    contract running (the event \<open>Forced\<close> below).
\<close>

type_synonym address = nat

record NGO =
  wallet :: address
  name :: string
  metadataCID :: string
  approved :: bool
  totalReceived :: nat
  totalWithdrawn :: nat
  description :: string
  website :: string
  contact :: string
  exists :: bool

record Donation =
  id' :: nat
  donor :: address
  ngo :: address
  amount :: nat
  timestamp :: nat
  message :: string
  proofCID :: string

datatype event =
    NGORegistered address string
  | NGOApproved address bool
  | DonationMade nat address address nat string
  | ProofAdded nat string
  | WithdrawalMade address nat

record state =
  owner :: address
  nextDonationId :: nat
  ngos :: "address \<Rightarrow> NGO"
  donations :: "nat \<Rightarrow> Donation"
  pendingWithdrawals :: "address \<Rightarrow> nat"
  ngoAddresses :: "address list"
  donationIds :: "nat list"
  balance :: nat
  events :: "event list"

record ctx =
  msg_sender :: address
  block_timestamp :: nat

datatype error = Revert string | Panic nat

definition uint256_max :: nat where
  "uint256_max = 2 ^ 256 - 1"

definition checked_add :: "nat \<Rightarrow> nat \<Rightarrow> error + nat" where
  "checked_add a b = (if a + b \<le> uint256_max then Inr (a + b) else Inl (Panic 17))"

definition checked_sub :: "nat \<Rightarrow> nat \<Rightarrow> error + nat" where
  "checked_sub a b = (if b \<le> a then Inr (a - b) else Inl (Panic 17))"

definition zero_NGO :: NGO where
  "zero_NGO = \<lparr>wallet = 0, name = [], metadataCID = [], approved = False,
     totalReceived = 0, totalWithdrawn = 0, description = [], website = [],
     contact = [], exists = False\<rparr>"

definition zero_Donation :: Donation where
  "zero_Donation = \<lparr>id' = 0, donor = 0, ngo = 0, amount = 0, timestamp = 0,
     message = [], proofCID = []\<rparr>"

definition emit :: "event \<Rightarrow> state \<Rightarrow> state" where
  "emit e s = s\<lparr>events := events s @ [e]\<rparr>"

text \<open>
  The constructor is not payable, so deployment brings no ether. Ether that was sent to
  the address before the contract was deployed is a \<open>Forced\<close> event at the head of
  the history (\<open>prefunded_deployment\<close>).
\<close>

definition constructor :: "address \<Rightarrow> state" where
  "constructor deployer =
     \<lparr>owner = deployer, nextDonationId = 1, ngos = (\<lambda>_. zero_NGO),
      donations = (\<lambda>_. zero_Donation), pendingWithdrawals = (\<lambda>_. 0),
      ngoAddresses = [], donationIds = [], balance = 0, events = []\<rparr>"

subsection \<open>NGO management\<close>

definition registerNGO ::
  "state \<Rightarrow> ctx \<Rightarrow> string \<Rightarrow> string \<Rightarrow> string \<Rightarrow> string \<Rightarrow> string \<Rightarrow> error + state" where
  "registerNGO s c nm cid descr web cont =
     (if exists (ngos s (msg_sender c)) then Inl (Revert ''NGO already registered'')
      else if \<not> length nm > 0 then Inl (Revert ''Name cannot be empty'')
      else
        let newNGO = \<lparr>wallet = msg_sender c, name = nm, metadataCID = cid,
              approved = False, totalReceived = 0, totalWithdrawn = 0,
              description = descr, website = web, contact = cont, exists = True\<rparr>;
            s1 = s\<lparr>ngos := (ngos s)(msg_sender c := newNGO)\<rparr>;
            s2 = s1\<lparr>ngoAddresses := ngoAddresses s1 @ [msg_sender c]\<rparr>
        in Inr (emit (NGORegistered (msg_sender c) nm) s2))"

definition approveNGO :: "state \<Rightarrow> ctx \<Rightarrow> address \<Rightarrow> bool \<Rightarrow> error + state" where
  "approveNGO s c ngoWallet appr =
     (if msg_sender c \<noteq> owner s then Inl (Revert ''Only owner can call this function'')
      else if \<not> exists (ngos s ngoWallet) then Inl (Revert ''NGO does not exist'')
      else
        let s1 = s\<lparr>ngos := (ngos s)(ngoWallet := (ngos s ngoWallet)\<lparr>approved := appr\<rparr>)\<rparr>
        in Inr (emit (NGOApproved ngoWallet appr) s1))"

definition getNGO :: "state \<Rightarrow> address \<Rightarrow> error + NGO" where
  "getNGO s ngoWallet =
     (if \<not> exists (ngos s ngoWallet) then Inl (Revert ''NGO does not exist'')
      else Inr (ngos s ngoWallet))"

definition getAllNGOs :: "state \<Rightarrow> address list" where
  "getAllNGOs s = ngoAddresses s"

subsection \<open>Donations\<close>

definition donate :: "state \<Rightarrow> ctx \<Rightarrow> address \<Rightarrow> string \<Rightarrow> nat \<Rightarrow> error + state" where
  "donate s c ngoWallet msg msg_value =
     (if \<not> exists (ngos s ngoWallet) then Inl (Revert ''NGO does not exist'')
      else if \<not> approved (ngos s ngoWallet) then Inl (Revert ''NGO is not approved'')
      else if \<not> msg_value > 0 then Inl (Revert ''Donation amount must be greater than 0'')
      else
        (case checked_add (nextDonationId s) 1 of Inl e \<Rightarrow> Inl e | Inr next \<Rightarrow>
          (let donationId = nextDonationId s;
               s1 = s\<lparr>nextDonationId := next, balance := balance s + msg_value\<rparr>;
               newDonation = \<lparr>id' = donationId, donor = msg_sender c, ngo = ngoWallet,
                 amount = msg_value, timestamp = block_timestamp c, message = msg,
                 proofCID = []\<rparr>;
               s2 = s1\<lparr>donations := (donations s1)(donationId := newDonation)\<rparr>;
               s3 = s2\<lparr>donationIds := donationIds s2 @ [donationId]\<rparr>
           in
           (case checked_add (totalReceived (ngos s3 ngoWallet)) msg_value of Inl e \<Rightarrow> Inl e
            | Inr tr \<Rightarrow>
              (let s4 = s3\<lparr>ngos := (ngos s3)(ngoWallet := (ngos s3 ngoWallet)\<lparr>totalReceived := tr\<rparr>)\<rparr>
               in
               (case checked_add (pendingWithdrawals s4 ngoWallet) msg_value of Inl e \<Rightarrow> Inl e
                | Inr pw \<Rightarrow>
                  (let s5 = s4\<lparr>pendingWithdrawals := (pendingWithdrawals s4)(ngoWallet := pw)\<rparr>
                   in Inr (emit (DonationMade donationId (msg_sender c) ngoWallet msg_value msg) s5))))))))"

definition getDonation :: "state \<Rightarrow> nat \<Rightarrow> error + Donation" where
  "getDonation s donationId =
     (if \<not> id' (donations s donationId) \<noteq> 0 then Inl (Revert ''Donation does not exist'')
      else Inr (donations s donationId))"

definition getAllDonations :: "state \<Rightarrow> nat list" where
  "getAllDonations s = donationIds s"

subsection \<open>Proof of impact\<close>

definition addProof :: "state \<Rightarrow> ctx \<Rightarrow> nat \<Rightarrow> string \<Rightarrow> error + state" where
  "addProof s c donationId cid =
     (if \<not> (exists (ngos s (msg_sender c)) \<and> approved (ngos s (msg_sender c)))
        then Inl (Revert ''NGO not approved'')
      else if \<not> id' (donations s donationId) \<noteq> 0 then Inl (Revert ''Donation does not exist'')
      else if \<not> ngo (donations s donationId) = msg_sender c
        then Inl (Revert ''Only recipient NGO can add proof'')
      else if \<not> length (proofCID (donations s donationId)) = 0
        then Inl (Revert ''Proof already added'')
      else
        let s1 = s\<lparr>donations :=
              (donations s)(donationId := (donations s donationId)\<lparr>proofCID := cid\<rparr>)\<rparr>
        in Inr (emit (ProofAdded donationId cid) s1))"

subsection \<open>Ownership and balances\<close>

definition transferOwnership :: "state \<Rightarrow> ctx \<Rightarrow> address \<Rightarrow> error + state" where
  "transferOwnership s c newOwner =
     (if msg_sender c \<noteq> owner s then Inl (Revert ''Only owner can call this function'')
      else if \<not> newOwner \<noteq> 0 then Inl (Revert ''New owner cannot be zero address'')
      else Inr (s\<lparr>owner := newOwner\<rparr>))"

definition getPendingWithdrawal :: "state \<Rightarrow> address \<Rightarrow> nat" where
  "getPendingWithdrawal s ngoWallet = pendingWithdrawals s ngoWallet"

definition getContractBalance :: "state \<Rightarrow> nat" where
  "getContractBalance s = balance s"

subsection \<open>Calls, withdrawal and the external payout\<close>

text \<open>
  \<open>withdraw\<close> hands control to its caller: \<open>msg.sender.call{value: amount}("")\<close>.
  What the receiver does is not in the contract, so it is part of the call: the
  payout either fails (\<open>PayoutFails\<close>: the receiver reverts or runs out of gas), or
  the receiver runs and returns, and while it runs it may call back into the
  contract any number of times, from any sender (\<open>PayoutReturns\<close> with those calls, each
  of which returns or reverts on its own). A transfer of more ether than the contract
  holds fails whatever the receiver is.

  \<open>Forced v\<close> is not a call: it is \<open>v\<close> wei credited to the address of the
  contract with none of its code running, as the beneficiary of a \<open>selfdestruct\<close>,
  as a block reward, or as ether sent to the address before deployment. It cannot be
  refused and changes nothing but the balance; its \<open>ctx\<close> is not used. It may
  happen between calls and during a payout.
\<close>

datatype op =
    RegisterNGO string string string string string
  | ApproveNGO address bool
  | Donate address string nat
  | AddProof nat string
  | Withdraw nat payout
  | TransferOwnership address
  | Forced nat
and payout =
    PayoutFails
  | PayoutReturns "(ctx \<times> op) list"

fun exec :: "state \<Rightarrow> ctx \<Rightarrow> op \<Rightarrow> error + state"
and withdraw :: "state \<Rightarrow> ctx \<Rightarrow> nat \<Rightarrow> payout \<Rightarrow> error + state"
and call_value :: "state \<Rightarrow> address \<Rightarrow> nat \<Rightarrow> payout \<Rightarrow> bool \<times> state"
and run :: "state \<Rightarrow> (ctx \<times> op) list \<Rightarrow> state"
where
  "exec s c (RegisterNGO nm cid descr web cont) = registerNGO s c nm cid descr web cont"
| "exec s c (ApproveNGO ngoWallet appr) = approveNGO s c ngoWallet appr"
| "exec s c (Donate ngoWallet msg msg_value) = donate s c ngoWallet msg msg_value"
| "exec s c (AddProof donationId cid) = addProof s c donationId cid"
| "exec s c (Withdraw amnt p) = withdraw s c amnt p"
| "exec s c (TransferOwnership newOwner) = transferOwnership s c newOwner"
| "exec s c (Forced v) = Inr (s\<lparr>balance := balance s + v\<rparr>)"
| "withdraw s c amnt p =
     (if \<not> (exists (ngos s (msg_sender c)) \<and> approved (ngos s (msg_sender c)))
        then Inl (Revert ''NGO not approved'')
      else if \<not> amnt > 0 then Inl (Revert ''Amount must be greater than 0'')
      else if \<not> pendingWithdrawals s (msg_sender c) \<ge> amnt
        then Inl (Revert ''Insufficient balance'')
      else
        (case checked_sub (pendingWithdrawals s (msg_sender c)) amnt of Inl e \<Rightarrow> Inl e
         | Inr pw \<Rightarrow>
           (let s1 = s\<lparr>pendingWithdrawals := (pendingWithdrawals s)(msg_sender c := pw)\<rparr>
            in
            (case checked_add (totalWithdrawn (ngos s1 (msg_sender c))) amnt of Inl e \<Rightarrow> Inl e
             | Inr tw \<Rightarrow>
               (let s2 = s1\<lparr>ngos := (ngos s1)(msg_sender c :=
                            (ngos s1 (msg_sender c))\<lparr>totalWithdrawn := tw\<rparr>)\<rparr>
                in
                (case call_value s2 (msg_sender c) amnt p of (success, s3) \<Rightarrow>
                   (if \<not> success then Inl (Revert ''Withdrawal failed'')
                    else Inr (emit (WithdrawalMade (msg_sender c) amnt) s3))))))))"
| "call_value s to amnt PayoutFails = (False, s)"
| "call_value s to amnt (PayoutReturns txs) =
     (if balance s < amnt then (False, s)
      else (True, run (s\<lparr>balance := balance s - amnt\<rparr>) txs))"
| "run s [] = s"
| "run s ((c, x) # txs) =
     run (case exec s c x of Inl e \<Rightarrow> s | Inr s' \<Rightarrow> s') txs"

text \<open>The storage after a call: a reverted call leaves it as it was.\<close>

definition apply_tx :: "state \<Rightarrow> ctx \<Rightarrow> op \<Rightarrow> state" where
  "apply_tx s c x = (case exec s c x of Inl e \<Rightarrow> s | Inr s' \<Rightarrow> s')"

text \<open>A history in which no ether is forced on the contract, during payouts included.\<close>

fun unforced_op :: "op \<Rightarrow> bool"
and unforced_payout :: "payout \<Rightarrow> bool"
and unforced_txs :: "(ctx \<times> op) list \<Rightarrow> bool"
where
  "unforced_op (Forced v) = False"
| "unforced_op (Withdraw amnt p) = unforced_payout p"
| "unforced_op (RegisterNGO nm cid descr web cont) = True"
| "unforced_op (ApproveNGO ngoWallet appr) = True"
| "unforced_op (Donate ngoWallet msg msg_value) = True"
| "unforced_op (AddProof donationId cid) = True"
| "unforced_op (TransferOwnership newOwner) = True"
| "unforced_payout PayoutFails = True"
| "unforced_payout (PayoutReturns txs) = unforced_txs txs"
| "unforced_txs [] = True"
| "unforced_txs ((c, x) # txs) = (unforced_op x \<and> unforced_txs txs)"

subsection \<open>Donations of one NGO\<close>

text \<open>
  \<open>getDonationsByNGO\<close> runs two \<open>for\<close> loops over \<open>donationIds\<close>: the first counts
  the matching donations, the second copies their ids into a fresh array of that
  length. Each loop is a recursive function on the loop variables. The last argument,
  \<open>steps\<close>, is not a variable of the program: it counts the loop bodies executed, to
  state how much work a query does. The counters \<open>i\<close>, \<open>count\<close> and \<open>index\<close>
  never exceed the length of \<open>donationIds\<close>, itself a \<open>uint256\<close>, so their
  increments are plain additions. A write past the end of the memory array is
  \<open>Panic 50\<close> (0x32).
\<close>

function count_loop :: "state \<Rightarrow> address \<Rightarrow> nat \<Rightarrow> nat \<Rightarrow> nat \<Rightarrow> nat \<times> nat" where
  "count_loop s ngoWallet i count steps =
     (if i < length (donationIds s) then
        (if ngo (donations s (donationIds s ! i)) = ngoWallet
         then count_loop s ngoWallet (i + 1) (count + 1) (steps + 1)
         else count_loop s ngoWallet (i + 1) count (steps + 1))
      else (count, steps))"
  by pat_completeness auto
termination
  by (relation "measure (\<lambda>(s, ngoWallet, i, count, steps). length (donationIds s) - i)") auto

function fill_loop ::
  "state \<Rightarrow> address \<Rightarrow> nat \<Rightarrow> nat \<Rightarrow> nat list \<Rightarrow> nat \<Rightarrow> error + (nat list \<times> nat)" where
  "fill_loop s ngoWallet i index ngodonationIds steps =
     (if i < length (donationIds s) then
        (if ngo (donations s (donationIds s ! i)) = ngoWallet
         then
           (if index < length ngodonationIds
            then fill_loop s ngoWallet (i + 1) (index + 1)
                   (ngodonationIds[index := donationIds s ! i]) (steps + 1)
            else Inl (Panic 50))
         else fill_loop s ngoWallet (i + 1) index ngodonationIds (steps + 1))
      else Inr (ngodonationIds, steps))"
  by pat_completeness auto
termination
  by (relation "measure (\<lambda>(s, ngoWallet, i, index, arr, steps). length (donationIds s) - i)") auto

definition getDonationsByNGO_scan :: "state \<Rightarrow> address \<Rightarrow> error + (nat list \<times> nat)" where
  "getDonationsByNGO_scan s ngoWallet =
     (case count_loop s ngoWallet 0 0 0 of (count, steps) \<Rightarrow>
        fill_loop s ngoWallet 0 0 (replicate count 0) steps)"

definition getDonationsByNGO :: "state \<Rightarrow> address \<Rightarrow> error + nat list" where
  "getDonationsByNGO s ngoWallet =
     (case getDonationsByNGO_scan s ngoWallet of Inl e \<Rightarrow> Inl e
      | Inr (ngodonationIds, steps) \<Rightarrow> Inr ngodonationIds)"

subsection \<open>Invariants of the storage\<close>

text \<open>
  The accounts of every address balance, the totals fit a \<open>uint256\<close>, and an address
  that never registered has received nothing.
\<close>

definition accounts_ok :: "state \<Rightarrow> bool" where
  "accounts_ok s \<longleftrightarrow>
     (\<forall>a. pendingWithdrawals s a + totalWithdrawn (ngos s a) = totalReceived (ngos s a)
        \<and> totalReceived (ngos s a) \<le> uint256_max
        \<and> (\<not> exists (ngos s a) \<longrightarrow> totalReceived (ngos s a) = 0))"

text \<open>\<open>ngoAddresses\<close> lists every registered address once.\<close>

definition registry_ok :: "state \<Rightarrow> bool" where
  "registry_ok s \<longleftrightarrow>
     distinct (ngoAddresses s) \<and> (\<forall>a. a \<in> set (ngoAddresses s) \<longleftrightarrow> exists (ngos s a))"

text \<open>
  The donation ids are \<open>1, 2, ..., nextDonationId - 1\<close>, each the key of its record;
  every other slot of \<open>donations\<close> still holds the zero struct.
\<close>

definition ids_ok :: "state \<Rightarrow> bool" where
  "ids_ok s \<longleftrightarrow>
     1 \<le> nextDonationId s \<and> nextDonationId s \<le> uint256_max
     \<and> donationIds s = [1 ..< nextDonationId s]
     \<and> (\<forall>i. if 1 \<le> i \<and> i < nextDonationId s then id' (donations s i) = i
              else donations s i = zero_Donation)"

definition total_pending :: "state \<Rightarrow> nat" where
  "total_pending s = sum_list (map (pendingWithdrawals s) (ngoAddresses s))"

text \<open>
  The contract holds the pending balances and \<open>owed\<close> more: the ether forced on it
  so far and, between the debit of \<open>withdraw\<close> and the transfer, the amount on its
  way out.
\<close>

definition inv_owing :: "nat \<Rightarrow> state \<Rightarrow> bool" where
  "inv_owing owed s \<longleftrightarrow>
     accounts_ok s \<and> registry_ok s \<and> ids_ok s \<and> balance s = total_pending s + owed"

text \<open>
  After a step from a storage with excess \<open>k\<close>: the excess has not shrunk, and it is
  the same when the step forced no ether.
\<close>

definition inv_surplus :: "nat \<Rightarrow> bool \<Rightarrow> state \<Rightarrow> bool" where
  "inv_surplus k unforced s \<longleftrightarrow>
     (\<exists>k'. k \<le> k' \<and> (unforced \<longrightarrow> k' = k) \<and> inv_owing k' s)"

text \<open>
  What may happen to the record of a donation once it exists: nothing, or, while its
  proof is still empty, a change of the proof alone.
\<close>

definition keeps_donation :: "nat \<Rightarrow> state \<Rightarrow> state \<Rightarrow> bool" where
  "keeps_donation i s s' \<longleftrightarrow>
     i < nextDonationId s' \<and>
     (donations s' i = donations s i
      \<or> proofCID (donations s i) = []
        \<and> donations s' i = (donations s i)\<lparr>proofCID := proofCID (donations s' i)\<rparr>)"

subsection \<open>What the specification asks of the per-organization listing\<close>

text \<open>
  Written from the specification, not from the code: the ids of the donations created
  so far are \<open>1, ..., nextDonationId - 1\<close> in creation order, and the listing of an
  organization keeps those whose record names it.
\<close>

definition listDonationsByOrganization_spec :: "state \<Rightarrow> address \<Rightarrow> nat list" where
  "listDonationsByOrganization_spec s a =
     filter (\<lambda>i. ngo (donations s i) = a) [1 ..< nextDonationId s]"

subsection \<open>Concrete histories\<close>

text \<open>
  The scenario of the specification: account 1 deploys the contract, account 2
  registers as ``Alpha Relief'', account 3 donates. Account 4 is a second organization.
\<close>

definition caller :: "address \<Rightarrow> ctx" where
  "caller a = \<lparr>msg_sender = a, block_timestamp = 1700000000\<rparr>"

definition alpha_registered :: "(ctx \<times> op) list" where
  "alpha_registered = [(caller 2, RegisterNGO ''Alpha Relief'' [] ''desc'' [] [])]"

definition alpha_funded :: "(ctx \<times> op) list" where
  "alpha_funded = alpha_registered @
     [(caller 1, ApproveNGO 2 True), (caller 3, Donate 2 ''hi'' 100)]"

definition alpha_withdrawn :: "(ctx \<times> op) list" where
  "alpha_withdrawn = alpha_funded @ [(caller 2, Withdraw 40 (PayoutReturns []))]"

text \<open>A payout during which the receiver calls \<open>withdraw\<close> again.\<close>

definition alpha_reentered :: "(ctx \<times> op) list" where
  "alpha_reentered = alpha_funded @
     [(caller 2, Withdraw 40 (PayoutReturns [(caller 2, Withdraw 30 (PayoutReturns []))]))]"

definition two_organizations :: "(ctx \<times> op) list" where
  "two_organizations = alpha_funded @
     [(caller 4, RegisterNGO ''Beta Aid'' [] [] [] []), (caller 3, Donate 2 ''again'' 50)]"

definition alpha_empty_proof :: "(ctx \<times> op) list" where
  "alpha_empty_proof = alpha_funded @ [(caller 2, AddProof 1 [])]"

definition alpha_proved :: "(ctx \<times> op) list" where
  "alpha_proved = alpha_withdrawn @ [(caller 2, AddProof 1 ''cidXYZ'')]"

definition owner_changed :: "(ctx \<times> op) list" where
  "owner_changed = alpha_registered @ [(caller 1, TransferOwnership 5)]"

text \<open>After the donation of 100, 7 wei are forced on the contract.\<close>

definition alpha_forced :: "(ctx \<times> op) list" where
  "alpha_forced = alpha_funded @ [(caller 9, Forced 7)]"

section \<open>Invariants of every reachable storage\<close>

declare withdraw.simps [simp del]
declare count_loop.simps [simp del] fill_loop.simps [simp del]


lemma sum_list_upd_notin:
  "a \<notin> set xs \<Longrightarrow> sum_list (map (f(a := v)) xs) = sum_list (map f xs)"
  by (induction xs) auto

lemma sum_list_upd_in:
  fixes f :: "'a \<Rightarrow> nat"
  shows "distinct xs \<Longrightarrow> a \<in> set xs \<Longrightarrow>
    sum_list (map (f(a := v)) xs) + f a = sum_list (map f xs) + v"
  by (induction xs) (auto simp: sum_list_upd_notin)

lemma checked_add_Inr: "checked_add a b = Inr r \<longleftrightarrow> r = a + b \<and> a + b \<le> uint256_max"
  by (auto simp: checked_add_def)

lemma checked_sub_Inr: "checked_sub a b = Inr r \<longleftrightarrow> r = a - b \<and> b \<le> a"
  by (auto simp: checked_sub_def)

lemma registerNGO_inv:
  assumes "inv_owing k s" "registerNGO s c nm cid d w ct = Inr s'"
  shows "inv_owing k s'"
proof -
  let ?a = "msg_sender c"
  from assms(2) have ne: "\<not> exists (ngos s ?a)"
    by (auto simp: registerNGO_def split: if_splits)
  from assms(2) have s': "s' = s\<lparr>ngos := (ngos s)(?a := \<lparr>wallet = ?a, name = nm, metadataCID = cid,
              approved = False, totalReceived = 0, totalWithdrawn = 0,
              description = d, website = w, contact = ct, exists = True\<rparr>),
      ngoAddresses := ngoAddresses s @ [?a],
      events := events s @ [NGORegistered ?a nm]\<rparr>"
    by (auto simp: registerNGO_def emit_def Let_def split: if_splits)
  from assms(1) have acc: "accounts_ok s" and reg: "registry_ok s" and ids: "ids_ok s"
    and bal: "balance s = total_pending s + k"
    by (auto simp: inv_owing_def)
  from acc ne have p0: "pendingWithdrawals s ?a = 0"
    by (auto simp: accounts_ok_def)
  have 1: "accounts_ok s'"
    using acc p0 by (auto simp: accounts_ok_def s')
  have 2: "registry_ok s'"
    using reg ne by (auto simp: registry_ok_def s')
  have 3: "ids_ok s'"
    using ids by (simp add: ids_ok_def s')
  have 4: "total_pending s' = total_pending s"
    using p0 by (simp add: total_pending_def s')
  show ?thesis using 1 2 3 4 bal by (simp add: inv_owing_def s')
qed

lemma approveNGO_inv:
  assumes "inv_owing k s" "approveNGO s c a b = Inr s'"
  shows "inv_owing k s'"
proof -
  from assms(2) have ex: "exists (ngos s a)"
    by (auto simp: approveNGO_def split: if_splits)
  from assms(2) have s': "s' = s\<lparr>ngos := (ngos s)(a := (ngos s a)\<lparr>approved := b\<rparr>),
      events := events s @ [NGOApproved a b]\<rparr>"
    by (auto simp: approveNGO_def emit_def Let_def split: if_splits)
  from assms(1) have acc: "accounts_ok s" and reg: "registry_ok s" and ids: "ids_ok s"
    and bal: "balance s = total_pending s + k"
    by (auto simp: inv_owing_def)
  have 1: "accounts_ok s'"
    using acc ex by (auto simp: accounts_ok_def s')
  have 2: "registry_ok s'"
    using reg ex by (auto simp: registry_ok_def s')
  have 3: "ids_ok s'"
    using ids by (simp add: ids_ok_def s')
  have 4: "total_pending s' = total_pending s"
    by (simp add: total_pending_def s')
  show ?thesis using 1 2 3 4 bal by (simp add: inv_owing_def s')
qed

lemma ids_ok_slot:
  assumes "ids_ok s"
  shows "if 1 \<le> i \<and> i < nextDonationId s then id' (donations s i) = i
         else donations s i = zero_Donation"
  using assms unfolding ids_ok_def by blast

lemma ids_ok_created:
  assumes "ids_ok s" "id' (donations s i) \<noteq> 0"
  shows "1 \<le> i \<and> i < nextDonationId s"
  using ids_ok_slot [OF assms(1), of i] assms(2)
  by (auto simp: zero_Donation_def split: if_splits)

lemma addProof_inv:
  assumes "inv_owing k s" "addProof s c i cid = Inr s'"
  shows "inv_owing k s'"
proof -
  from assms(2) have nz: "id' (donations s i) \<noteq> 0"
    by (auto simp: addProof_def split: if_splits)
  from assms(2) have s': "s' = s\<lparr>donations := (donations s)(i := (donations s i)\<lparr>proofCID := cid\<rparr>),
      events := events s @ [ProofAdded i cid]\<rparr>"
    by (auto simp: addProof_def emit_def Let_def split: if_splits)
  from assms(1) have acc: "accounts_ok s" and reg: "registry_ok s" and ids: "ids_ok s"
    and bal: "balance s = total_pending s + k"
    by (auto simp: inv_owing_def)
  have 1: "accounts_ok s'"
    using acc by (auto simp: accounts_ok_def s')
  have 2: "registry_ok s'"
    using reg by (auto simp: registry_ok_def s')
  have 3: "ids_ok s'"
    using ids ids_ok_created [OF ids nz] by (simp add: ids_ok_def s')
  have 4: "total_pending s' = total_pending s"
    by (simp add: total_pending_def s')
  show ?thesis using 1 2 3 4 bal by (simp add: inv_owing_def s')
qed

lemma transferOwnership_inv:
  assumes "inv_owing k s" "transferOwnership s c a = Inr s'"
  shows "inv_owing k s'"
proof -
  from assms(2) have s': "s' = s\<lparr>owner := a\<rparr>"
    by (auto simp: transferOwnership_def split: if_splits)
  show ?thesis using assms(1)
    by (simp add: inv_owing_def accounts_ok_def registry_ok_def ids_ok_def total_pending_def s')
qed

lemma donate_Inr:
  assumes "donate s c a m v = Inr s'"
  shows "exists (ngos s a) \<and> approved (ngos s a) \<and> 0 < v
    \<and> nextDonationId s + 1 \<le> uint256_max
    \<and> totalReceived (ngos s a) + v \<le> uint256_max
    \<and> pendingWithdrawals s a + v \<le> uint256_max
    \<and> s' = s\<lparr>nextDonationId := nextDonationId s + 1,
         ngos := (ngos s)(a := (ngos s a)\<lparr>totalReceived := totalReceived (ngos s a) + v\<rparr>),
         donations := (donations s)(nextDonationId s :=
           \<lparr>id' = nextDonationId s, donor = msg_sender c, ngo = a, amount = v,
            timestamp = block_timestamp c, message = m, proofCID = []\<rparr>),
         pendingWithdrawals := (pendingWithdrawals s)(a := pendingWithdrawals s a + v),
         donationIds := donationIds s @ [nextDonationId s],
         balance := balance s + v,
         events := events s @ [DonationMade (nextDonationId s) (msg_sender c) a v m]\<rparr>"
  using assms
  by (auto simp: donate_def emit_def Let_def checked_add_Inr split: if_splits sum.splits)

lemma donate_inv:
  assumes "inv_owing k s" "donate s c a m v = Inr s'"
  shows "inv_owing k s'"
proof -
  note d = donate_Inr [OF assms(2)]
  from d have ex: "exists (ngos s a)" and nx: "nextDonationId s + 1 \<le> uint256_max"
    and tr: "totalReceived (ngos s a) + v \<le> uint256_max" by auto
  from d have s': "s' = s\<lparr>nextDonationId := nextDonationId s + 1,
         ngos := (ngos s)(a := (ngos s a)\<lparr>totalReceived := totalReceived (ngos s a) + v\<rparr>),
         donations := (donations s)(nextDonationId s :=
           \<lparr>id' = nextDonationId s, donor = msg_sender c, ngo = a, amount = v,
            timestamp = block_timestamp c, message = m, proofCID = []\<rparr>),
         pendingWithdrawals := (pendingWithdrawals s)(a := pendingWithdrawals s a + v),
         donationIds := donationIds s @ [nextDonationId s],
         balance := balance s + v,
         events := events s @ [DonationMade (nextDonationId s) (msg_sender c) a v m]\<rparr>"
    by blast
  from assms(1) have acc: "accounts_ok s" and reg: "registry_ok s" and ids: "ids_ok s"
    and bal: "balance s = total_pending s + k"
    by (auto simp: inv_owing_def)
  have 1: "accounts_ok s'"
    using acc ex tr by (auto simp: accounts_ok_def s')
  have 2: "registry_ok s'"
    using reg ex by (auto simp: registry_ok_def s')
  have 3: "ids_ok s'"
    using ids nx by (auto simp: ids_ok_def s')
  from reg ex have "distinct (ngoAddresses s)" "a \<in> set (ngoAddresses s)"
    by (auto simp: registry_ok_def)
  from sum_list_upd_in [OF this, of "pendingWithdrawals s" "pendingWithdrawals s a + v"]
  have 4: "total_pending s' = total_pending s + v"
    by (simp add: total_pending_def s')
  show ?thesis using 1 2 3 4 bal by (simp add: inv_owing_def s')
qed


lemma emit_inv: "inv_owing k s \<Longrightarrow> inv_owing k (emit e s)"
  by (simp add: inv_owing_def accounts_ok_def registry_ok_def ids_ok_def total_pending_def emit_def)

lemma debit_inv:
  assumes "inv_owing k s" "exists (ngos s a)" "amnt \<le> pendingWithdrawals s a"
  shows "inv_owing (k + amnt)
    (s\<lparr>pendingWithdrawals := (pendingWithdrawals s)(a := pendingWithdrawals s a - amnt),
       ngos := (ngos s)(a := (ngos s a)\<lparr>totalWithdrawn := totalWithdrawn (ngos s a) + amnt\<rparr>)\<rparr>)"
    (is "inv_owing _ ?s'")
proof -
  from assms(1) have acc: "accounts_ok s" and reg: "registry_ok s" and ids: "ids_ok s"
    and bal: "balance s = total_pending s + k"
    by (auto simp: inv_owing_def)
  have 1: "accounts_ok ?s'"
    using acc assms(2,3) by (auto simp: accounts_ok_def)
  have 2: "registry_ok ?s'"
    using reg assms(2) by (auto simp: registry_ok_def)
  have 3: "ids_ok ?s'"
    using ids by (simp add: ids_ok_def)
  from reg assms(2) have "distinct (ngoAddresses s)" "a \<in> set (ngoAddresses s)"
    by (auto simp: registry_ok_def)
  from sum_list_upd_in [OF this, of "pendingWithdrawals s" "pendingWithdrawals s a - amnt"] assms(3)
  have 4: "total_pending ?s' + amnt = total_pending s"
    by (simp add: total_pending_def)
  show ?thesis using 1 2 3 4 bal by (simp add: inv_owing_def)
qed

lemma paid_inv:
  assumes "inv_owing (k + amnt) s"
  shows "inv_owing k (s\<lparr>balance := balance s - amnt\<rparr>)"
  using assms
  by (simp add: inv_owing_def accounts_ok_def registry_ok_def ids_ok_def total_pending_def)

lemma withdraw_Inr:
  assumes "withdraw s c amnt p = Inr s'"
  shows "exists (ngos s (msg_sender c)) \<and> approved (ngos s (msg_sender c)) \<and> 0 < amnt
    \<and> amnt \<le> pendingWithdrawals s (msg_sender c)
    \<and> totalWithdrawn (ngos s (msg_sender c)) + amnt \<le> uint256_max
    \<and> (\<exists>s3. call_value
          (s\<lparr>pendingWithdrawals := (pendingWithdrawals s)(msg_sender c :=
                pendingWithdrawals s (msg_sender c) - amnt),
             ngos := (ngos s)(msg_sender c := (ngos s (msg_sender c))
                \<lparr>totalWithdrawn := totalWithdrawn (ngos s (msg_sender c)) + amnt\<rparr>)\<rparr>)
          (msg_sender c) amnt p = (True, s3)
        \<and> s' = emit (WithdrawalMade (msg_sender c) amnt) s3)"
  using assms
  by (auto simp: withdraw.simps Let_def checked_add_Inr checked_sub_Inr
      split: if_splits sum.splits prod.splits)

lemma inv_surplusI: "inv_owing k s \<Longrightarrow> inv_surplus k b s"
  by (auto simp: inv_surplus_def)

lemma inv_surplus_emit: "inv_surplus k b s \<Longrightarrow> inv_surplus k b (emit e s)"
  by (auto simp: inv_surplus_def intro: emit_inv)

lemma inv_surplus_trans:
  assumes "k \<le> k1" "b1 \<longrightarrow> k1 = k" "inv_surplus k1 b2 s"
  shows "inv_surplus k (b1 \<and> b2) s"
proof -
  from assms(3) obtain k2 where "k1 \<le> k2" "b2 \<longrightarrow> k2 = k1" "inv_owing k2 s"
    by (auto simp: inv_surplus_def)
  with assms(1,2) have "k \<le> k2 \<and> (b1 \<and> b2 \<longrightarrow> k2 = k) \<and> inv_owing k2 s"
    by auto
  then show ?thesis
    unfolding inv_surplus_def by (rule exI)
qed

lemma forced_inv: "inv_owing k s \<Longrightarrow> inv_owing (k + v) (s\<lparr>balance := balance s + v\<rparr>)"
  by (simp add: inv_owing_def accounts_ok_def registry_ok_def ids_ok_def total_pending_def)

lemma exec_inv:
    "inv_owing k s \<Longrightarrow> exec s c x = Inr s' \<Longrightarrow> inv_surplus k (unforced_op x) s'"
  and withdraw_inv:
    "inv_owing k s \<Longrightarrow> withdraw s c amnt p = Inr s' \<Longrightarrow> inv_surplus k (unforced_payout p) s'"
  and call_value_inv:
    "inv_owing (k + amnt) s \<Longrightarrow> call_value s to amnt p = (True, s') \<Longrightarrow>
       inv_surplus k (unforced_payout p) s'"
  and run_inv: "inv_owing k s \<Longrightarrow> inv_surplus k (unforced_txs txs) (run s txs)"
proof (induction s c x and s c amnt p and s to amnt p and s txs
    arbitrary: s' k and s' k and s' k and k
    rule: exec_withdraw_call_value_run.induct)
  case (1 s c nm cid descr web cont)
  then show ?case by (auto dest: registerNGO_inv intro: inv_surplusI)
next
  case (2 s c ngoWallet appr)
  then show ?case by (auto dest: approveNGO_inv intro: inv_surplusI)
next
  case (3 s c ngoWallet msg msg_value)
  then show ?case by (auto dest: donate_inv intro: inv_surplusI)
next
  case (4 s c donationId cid)
  then show ?case by (auto dest: addProof_inv intro: inv_surplusI)
next
  case (5 s c amnt p)
  then show ?case by simp
next
  case (6 s c newOwner)
  then show ?case by (auto dest: transferOwnership_inv intro: inv_surplusI)
next
  case (7 s c v)
  from "7.prems" have "s' = s\<lparr>balance := balance s + v\<rparr>" by simp
  with forced_inv [OF "7.prems"(1), of v] have "inv_owing (k + v) s'" by simp
  then have "k \<le> k + v \<and> (unforced_op (Forced v) \<longrightarrow> k + v = k) \<and> inv_owing (k + v) s'"
    by simp
  then show ?case
    unfolding inv_surplus_def by (rule exI)
next
  case (8 s c amnt p)
  let ?a = "msg_sender c"
  let ?s2 = "s\<lparr>pendingWithdrawals := (pendingWithdrawals s)(?a := pendingWithdrawals s ?a - amnt),
       ngos := (ngos s)(?a := (ngos s ?a)\<lparr>totalWithdrawn := totalWithdrawn (ngos s ?a) + amnt\<rparr>)\<rparr>"
  note w = withdraw_Inr [OF "8.prems"(2)]
  from w have ex: "exists (ngos s ?a)" and ap: "approved (ngos s ?a)" and pos: "0 < amnt"
    and le: "amnt \<le> pendingWithdrawals s ?a"
    and tw: "totalWithdrawn (ngos s ?a) + amnt \<le> uint256_max" by auto
  from w obtain s3 where cv: "call_value ?s2 ?a amnt p = (True, s3)"
    and s': "s' = emit (WithdrawalMade ?a amnt) s3" by blast
  have d: "inv_owing (k + amnt) ?s2"
    using debit_inv [OF "8.prems"(1) ex le] by simp
  have "inv_surplus k (unforced_payout p) s3"
  proof (rule "8.IH" [where s' = s3])
    show "\<not> \<not> (exists (ngos s ?a) \<and> approved (ngos s ?a))" using ex ap by simp
    show "\<not> \<not> 0 < amnt" using pos by simp
    show "\<not> \<not> amnt \<le> pendingWithdrawals s ?a" using le by simp
    show "checked_sub (pendingWithdrawals s ?a) amnt = Inr (pendingWithdrawals s ?a - amnt)"
      using le by (simp add: checked_sub_def)
    show "s\<lparr>pendingWithdrawals := (pendingWithdrawals s)(?a := pendingWithdrawals s ?a - amnt)\<rparr>
       = s\<lparr>pendingWithdrawals := (pendingWithdrawals s)(?a := pendingWithdrawals s ?a - amnt)\<rparr>"
      by (rule refl)
    show "checked_add (totalWithdrawn (ngos (s\<lparr>pendingWithdrawals :=
        (pendingWithdrawals s)(?a := pendingWithdrawals s ?a - amnt)\<rparr>) ?a)) amnt
        = Inr (totalWithdrawn (ngos s ?a) + amnt)"
      using tw by (simp add: checked_add_def)
    show "?s2 = (s\<lparr>pendingWithdrawals := (pendingWithdrawals s)(?a := pendingWithdrawals s ?a - amnt)\<rparr>)
       \<lparr>ngos := (ngos (s\<lparr>pendingWithdrawals := (pendingWithdrawals s)(?a := pendingWithdrawals s ?a - amnt)\<rparr>))
          (?a := (ngos (s\<lparr>pendingWithdrawals := (pendingWithdrawals s)(?a := pendingWithdrawals s ?a - amnt)\<rparr>) ?a)
             \<lparr>totalWithdrawn := totalWithdrawn (ngos s ?a) + amnt\<rparr>)\<rparr>"
      by simp
    show "inv_owing (k + amnt) ?s2" by (rule d)
    show "call_value ?s2 ?a amnt p = (True, s3)" by (rule cv)
  qed
  then show ?case unfolding s' by (rule inv_surplus_emit)
next
  case (9 s to amnt)
  then show ?case by simp
next
  case (10 s to amnt txs)
  from "10.prems"(2) have ge: "\<not> balance s < amnt"
    and s': "s' = run (s\<lparr>balance := balance s - amnt\<rparr>) txs"
    by (auto split: if_splits)
  have "inv_owing k (s\<lparr>balance := balance s - amnt\<rparr>)"
    using "10.prems"(1) by (rule paid_inv)
  from "10.IH" [OF ge this] show ?case by (simp add: s')
next
  case (11 s)
  then show ?case by (simp add: inv_surplusI)
next
  case (12 s c x txs)
  let ?t = "case exec s c x of Inl e \<Rightarrow> s | Inr s' \<Rightarrow> s'"
  have "inv_surplus k (unforced_op x) ?t"
    using "12.prems" "12.IH"(1) by (auto split: sum.splits intro: inv_surplusI)
  then obtain k1 where k1: "k \<le> k1" "unforced_op x \<longrightarrow> k1 = k" "inv_owing k1 ?t"
    by (auto simp: inv_surplus_def)
  from "12.IH"(2) [OF k1(3)] have "inv_surplus k1 (unforced_txs txs) (run ?t txs)" .
  from inv_surplus_trans [OF k1(1,2) this] show ?case by simp
qed

lemma constructor_inv: "inv_owing 0 (constructor d)"
  by (simp add: inv_owing_def accounts_ok_def registry_ok_def ids_ok_def total_pending_def
      constructor_def zero_NGO_def zero_Donation_def uint256_max_def)

lemma reachable_inv: "inv_surplus 0 (unforced_txs txs) (run (constructor d) txs)"
  by (rule run_inv [OF constructor_inv])

lemma prefunded_deployment:
  "run (constructor d) ((c, Forced v) # txs) = run ((constructor d)\<lparr>balance := v\<rparr>) txs"
  by (simp add: constructor_def)

section \<open>The two loops of the listing\<close>


lemma count_loop_eq:
  "count_loop s a i count steps =
     (count + length (filter (\<lambda>j. ngo (donations s j) = a) (drop i (donationIds s))),
      steps + (length (donationIds s) - i))"
proof (induction s a i count steps rule: count_loop.induct)
  case (1 s a i count steps)
  show ?case
  proof (cases "i < length (donationIds s)")
    case True
    then have dr: "drop i (donationIds s) = donationIds s ! i # drop (Suc i) (donationIds s)"
      by (simp add: Cons_nth_drop_Suc)
    show ?thesis
    proof (cases "ngo (donations s (donationIds s ! i)) = a")
      case m: True
      from "1.IH"(1) [OF True m] True m show ?thesis
        by (subst count_loop.simps) (simp add: dr)
    next
      case m: False
      from "1.IH"(2) [OF True m] True m show ?thesis
        by (subst count_loop.simps) (simp add: dr)
    qed
  next
    case False
    then show ?thesis by (subst count_loop.simps) simp
  qed
qed

lemma fill_loop_eq:
  "index + length (filter (\<lambda>j. ngo (donations s j) = a) (drop i (donationIds s))) \<le> length arr \<Longrightarrow>
   fill_loop s a i index arr steps =
     Inr (take index arr @ filter (\<lambda>j. ngo (donations s j) = a) (drop i (donationIds s))
            @ drop (index + length (filter (\<lambda>j. ngo (donations s j) = a) (drop i (donationIds s)))) arr,
          steps + (length (donationIds s) - i))"
proof (induction s a i index arr steps rule: fill_loop.induct)
  case (1 s a i index arr steps)
  show ?case
  proof (cases "i < length (donationIds s)")
    case True
    then have dr: "drop i (donationIds s) = donationIds s ! i # drop (Suc i) (donationIds s)"
      by (simp add: Cons_nth_drop_Suc)
    show ?thesis
    proof (cases "ngo (donations s (donationIds s ! i)) = a")
      case m: True
      with "1.prems" have lt: "index < length arr" by (simp add: dr)
      have pre: "index + 1 + length (filter (\<lambda>j. ngo (donations s j) = a) (drop (i + 1) (donationIds s)))
          \<le> length (arr[index := donationIds s ! i])"
        using "1.prems" m by (simp add: dr)
      have tk: "take (Suc index) (arr[index := donationIds s ! i]) = take index arr @ [donationIds s ! i]"
        using lt by (simp add: take_Suc_conv_app_nth)
      from "1.IH"(1) [OF True m lt pre] True m lt show ?thesis
        by (subst fill_loop.simps) (simp add: dr tk)
    next
      case m: False
      have pre: "index + length (filter (\<lambda>j. ngo (donations s j) = a) (drop (i + 1) (donationIds s)))
          \<le> length arr"
        using "1.prems" m by (simp add: dr)
      from "1.IH"(2) [OF True m pre] True m show ?thesis
        by (subst fill_loop.simps) (simp add: dr)
    qed
  next
    case False
    then show ?thesis by (subst fill_loop.simps) simp
  qed
qed

lemma getDonationsByNGO_scan_eq:
  "getDonationsByNGO_scan s a =
     Inr (filter (\<lambda>j. ngo (donations s j) = a) (donationIds s), 2 * length (donationIds s))"
  by (simp add: getDonationsByNGO_scan_def count_loop_eq fill_loop_eq)

section \<open>Reachable storage and evaluation\<close>

text \<open>
  A reachable storage is \<open>run (constructor d) txs\<close>: the contract deployed by \<open>d\<close>,
  after the history \<open>txs\<close> of calls and forced transfers, whatever they are and
  whether each call returns or reverts, those made by a receiver during a payout
  included.
\<close>

lemmas eval_defs = registerNGO_def approveNGO_def donate_def addProof_def transferOwnership_def
  withdraw.simps checked_add_def checked_sub_def emit_def constructor_def caller_def
  zero_NGO_def zero_Donation_def uint256_max_def apply_tx_def Let_def
  alpha_registered_def alpha_funded_def alpha_withdrawn_def alpha_reentered_def
  two_organizations_def alpha_empty_proof_def alpha_proved_def owner_changed_def
  alpha_forced_def

lemma getPendingWithdrawal_eq: "getPendingWithdrawal s = pendingWithdrawals s"
  by (rule ext) (simp add: getPendingWithdrawal_def)

lemma reachable_accounts: "accounts_ok (run (constructor d) txs)"
  using reachable_inv [of txs d] by (auto simp: inv_surplus_def inv_owing_def)

lemma reachable_registry: "registry_ok (run (constructor d) txs)"
  using reachable_inv [of txs d] by (auto simp: inv_surplus_def inv_owing_def)

lemma reachable_ids: "ids_ok (run (constructor d) txs)"
  using reachable_inv [of txs d] by (auto simp: inv_surplus_def inv_owing_def)

lemma reachable_balance:
  "total_pending (run (constructor d) txs) \<le> balance (run (constructor d) txs)"
  using reachable_inv [of txs d] by (auto simp: inv_surplus_def inv_owing_def)

lemma reachable_balance_unforced:
  "unforced_txs txs \<Longrightarrow>
     balance (run (constructor d) txs) = total_pending (run (constructor d) txs)"
  using reachable_inv [of txs d] by (auto simp: inv_surplus_def inv_owing_def)

lemma exec_Inl_apply_tx: "exec s c x = Inl e \<Longrightarrow> apply_tx s c x = s"
  by (simp add: apply_tx_def)

section \<open>The record of a donation after its creation\<close>

lemma keeps_same:
  "i < nextDonationId s' \<Longrightarrow> donations s' i = donations s i \<Longrightarrow> keeps_donation i s s'"
  by (simp add: keeps_donation_def)

lemma keeps_trans:
  assumes "keeps_donation i s s'" "keeps_donation i s' s''"
  shows "keeps_donation i s s''"
proof -
  from assms(2) have n: "i < nextDonationId s''" by (simp add: keeps_donation_def)
  from assms(2) consider (same) "donations s'' i = donations s' i"
    | (attached) "proofCID (donations s' i) = []"
        "donations s'' i = (donations s' i)\<lparr>proofCID := proofCID (donations s'' i)\<rparr>"
    by (auto simp: keeps_donation_def)
  then show ?thesis
  proof cases
    case same
    with assms(1) n show ?thesis by (auto simp: keeps_donation_def)
  next
    case attached
    from assms(1) consider (a) "donations s' i = donations s i"
      | (b) "proofCID (donations s i) = []"
        "donations s' i = (donations s i)\<lparr>proofCID := proofCID (donations s' i)\<rparr>"
      by (auto simp: keeps_donation_def)
    then show ?thesis
    proof cases
      case a
      with attached n show ?thesis by (simp add: keeps_donation_def)
    next
      case b
      have "donations s'' i = (donations s i)\<lparr>proofCID := proofCID (donations s'' i)\<rparr>"
        by (subst attached(2), subst b(2)) simp
      with b(1) n show ?thesis by (simp add: keeps_donation_def)
    qed
  qed
qed

lemma donate_keeps:
  assumes "donate s c a m v = Inr s'" "i < nextDonationId s"
  shows "keeps_donation i s s'"
proof -
  from donate_Inr [OF assms(1)] have
    "nextDonationId s' = nextDonationId s + 1"
    "donations s' = (donations s)(nextDonationId s :=
           \<lparr>id' = nextDonationId s, donor = msg_sender c, ngo = a, amount = v,
            timestamp = block_timestamp c, message = m, proofCID = []\<rparr>)"
    by simp_all
  with assms(2) show ?thesis by (simp add: keeps_donation_def)
qed

lemma addProof_keeps:
  assumes "addProof s c j cid = Inr s'" "i < nextDonationId s"
  shows "keeps_donation i s s'"
proof -
  from assms(1) have e: "proofCID (donations s j) = []"
    by (auto simp: addProof_def split: if_splits)
  from assms(1) have s': "s' = s\<lparr>donations := (donations s)(j := (donations s j)\<lparr>proofCID := cid\<rparr>),
      events := events s @ [ProofAdded j cid]\<rparr>"
    by (auto simp: addProof_def emit_def Let_def split: if_splits)
  show ?thesis using e assms(2) by (simp add: keeps_donation_def s')
qed

lemma exec_keeps:
    "exec s c x = Inr s' \<Longrightarrow> i < nextDonationId s \<Longrightarrow> keeps_donation i s s'"
  and withdraw_keeps:
    "withdraw s c amnt p = Inr s' \<Longrightarrow> i < nextDonationId s \<Longrightarrow> keeps_donation i s s'"
  and call_value_keeps:
    "call_value s to amnt p = (True, s') \<Longrightarrow> i < nextDonationId s \<Longrightarrow> keeps_donation i s s'"
  and run_keeps:
    "i < nextDonationId s \<Longrightarrow> keeps_donation i s (run s txs)"
proof (induction s c x and s c amnt p and s to amnt p and s txs
    arbitrary: s' and s' and s' and
    rule: exec_withdraw_call_value_run.induct)
  case (1 s c nm cid descr web cont)
  then show ?case
    by (auto simp: registerNGO_def emit_def Let_def keeps_donation_def split: if_splits)
next
  case (2 s c ngoWallet appr)
  then show ?case
    by (auto simp: approveNGO_def emit_def Let_def keeps_donation_def split: if_splits)
next
  case (3 s c ngoWallet msg msg_value)
  then show ?case by (auto intro: donate_keeps)
next
  case (4 s c donationId cid)
  then show ?case by (auto intro: addProof_keeps)
next
  case (5 s c amnt p)
  then show ?case by simp
next
  case (6 s c newOwner)
  then show ?case
    by (auto simp: transferOwnership_def keeps_donation_def split: if_splits)
next
  case (7 s c v)
  then show ?case by (auto simp: keeps_donation_def)
next
  case (8 s c amnt p)
  let ?a = "msg_sender c"
  let ?s2 = "s\<lparr>pendingWithdrawals := (pendingWithdrawals s)(?a := pendingWithdrawals s ?a - amnt),
       ngos := (ngos s)(?a := (ngos s ?a)\<lparr>totalWithdrawn := totalWithdrawn (ngos s ?a) + amnt\<rparr>)\<rparr>"
  note w = withdraw_Inr [OF "8.prems"(1)]
  from w have ex: "exists (ngos s ?a)" and ap: "approved (ngos s ?a)" and pos: "0 < amnt"
    and le: "amnt \<le> pendingWithdrawals s ?a"
    and tw: "totalWithdrawn (ngos s ?a) + amnt \<le> uint256_max" by auto
  from w obtain s3 where cv: "call_value ?s2 ?a amnt p = (True, s3)"
    and s': "s' = emit (WithdrawalMade ?a amnt) s3" by blast
  have "keeps_donation i ?s2 s3"
  proof (rule "8.IH" [where s' = s3])
    show "\<not> \<not> (exists (ngos s ?a) \<and> approved (ngos s ?a))" using ex ap by simp
    show "\<not> \<not> 0 < amnt" using pos by simp
    show "\<not> \<not> amnt \<le> pendingWithdrawals s ?a" using le by simp
    show "checked_sub (pendingWithdrawals s ?a) amnt = Inr (pendingWithdrawals s ?a - amnt)"
      using le by (simp add: checked_sub_def)
    show "s\<lparr>pendingWithdrawals := (pendingWithdrawals s)(?a := pendingWithdrawals s ?a - amnt)\<rparr>
       = s\<lparr>pendingWithdrawals := (pendingWithdrawals s)(?a := pendingWithdrawals s ?a - amnt)\<rparr>"
      by (rule refl)
    show "checked_add (totalWithdrawn (ngos (s\<lparr>pendingWithdrawals :=
        (pendingWithdrawals s)(?a := pendingWithdrawals s ?a - amnt)\<rparr>) ?a)) amnt
        = Inr (totalWithdrawn (ngos s ?a) + amnt)"
      using tw by (simp add: checked_add_def)
    show "?s2 = (s\<lparr>pendingWithdrawals := (pendingWithdrawals s)(?a := pendingWithdrawals s ?a - amnt)\<rparr>)
       \<lparr>ngos := (ngos (s\<lparr>pendingWithdrawals := (pendingWithdrawals s)(?a := pendingWithdrawals s ?a - amnt)\<rparr>))
          (?a := (ngos (s\<lparr>pendingWithdrawals := (pendingWithdrawals s)(?a := pendingWithdrawals s ?a - amnt)\<rparr>) ?a)
             \<lparr>totalWithdrawn := totalWithdrawn (ngos s ?a) + amnt\<rparr>)\<rparr>"
      by simp
    show "call_value ?s2 ?a amnt p = (True, s3)" by (rule cv)
    show "i < nextDonationId ?s2" using "8.prems"(2) by simp
  qed
  then show ?case by (simp add: keeps_donation_def s' emit_def)
next
  case (9 s to amnt)
  then show ?case by simp
next
  case (10 s to amnt txs)
  from "10.prems"(1) have ge: "\<not> balance s < amnt"
    and s': "s' = run (s\<lparr>balance := balance s - amnt\<rparr>) txs"
    by (auto split: if_splits)
  have "i < nextDonationId (s\<lparr>balance := balance s - amnt\<rparr>)"
    using "10.prems"(2) by simp
  then have "keeps_donation i (s\<lparr>balance := balance s - amnt\<rparr>)
      (run (s\<lparr>balance := balance s - amnt\<rparr>) txs)"
    by (rule "10.IH" [OF ge])
  then show ?case by (simp add: s' keeps_donation_def)
next
  case (11 s)
  then show ?case by (simp add: keeps_donation_def)
next
  case (12 s c x txs)
  let ?t = "case exec s c x of Inl e \<Rightarrow> s | Inr s' \<Rightarrow> s'"
  have k1: "keeps_donation i s ?t"
    using "12.prems" "12.IH"(1) by (auto split: sum.splits simp: keeps_donation_def)
  then have "i < nextDonationId ?t" by (simp add: keeps_donation_def)
  from "12.IH"(2) [OF this] have "keeps_donation i ?t (run ?t txs)" .
  from keeps_trans [OF k1 this] show ?case by simp
qed

lemma proof_once_set_is_final:
  assumes "ids_ok s" "proofCID (donations s i) \<noteq> []"
  shows "donations (run s txs) i = donations s i"
proof -
  from ids_ok_slot [OF assms(1), of i] assms(2) have "i < nextDonationId s"
    by (auto simp: zero_Donation_def split: if_splits)
  from run_keeps [OF this, of txs] assms(2) show ?thesis
    by (simp add: keeps_donation_def)
qed

section \<open>The scenarios of the specification\<close>

text \<open>
  The model run on the two scenarios that the specification gives as tests.
\<close>

lemma scenario_of_the_specification:
  "exec (run (constructor 1) alpha_registered) (caller 3) (Donate 2 ''hi'' 100)
     = Inl (Revert ''NGO is not approved'')"
  "donationIds (run (constructor 1) alpha_funded) = [1]"
  "totalReceived (ngos (run (constructor 1) alpha_funded) 2) = 100"
  "getPendingWithdrawal (run (constructor 1) alpha_funded) 2 = 100"
  "totalWithdrawn (ngos (run (constructor 1) alpha_withdrawn) 2) = 40"
  "getPendingWithdrawal (run (constructor 1) alpha_withdrawn) 2 = 60"
  "exec (run (constructor 1) alpha_withdrawn) (caller 2) (AddProof 1 ''cidXYZ'')
     = Inr (run (constructor 1) alpha_proved)"
  "exec (run (constructor 1) alpha_proved) (caller 2) (AddProof 1 ''other'')
     = Inl (Revert ''Proof already added'')"
  "map_sum id proofCID (getDonation (run (constructor 1) alpha_proved) 1) = Inr ''cidXYZ''"
  by (simp_all add: eval_defs getPendingWithdrawal_def getDonation_def)

lemma scenario_of_the_new_owner:
  "exec (run (constructor 1) owner_changed) (caller 1) (ApproveNGO 2 True)
     = Inl (Revert ''Only owner can call this function'')"
  "map_sum id approved (getNGO (apply_tx (run (constructor 1) owner_changed) (caller 5)
      (ApproveNGO 2 True)) 2) = Inr True"
  by (simp_all add: eval_defs getNGO_def)

text \<open>
  A receiver that calls \<open>withdraw\<close> again during its payout sees the balance
  already debited: after a withdrawal of 40 out of 100 it cannot take 100.
\<close>

lemma reentrant_withdraw_sees_the_debit:
  "getPendingWithdrawal (run (constructor 1) (alpha_funded @
     [(caller 2, Withdraw 40 (PayoutReturns [(caller 2, Withdraw 100 (PayoutReturns []))]))])) 2 = 60"
  "exec (run (constructor 1) (alpha_funded @
     [(caller 2, Withdraw 40 (PayoutReturns []))])) (caller 2) (Withdraw 100 (PayoutReturns []))
     = Inl (Revert ''Insufficient balance'')"
  by (simp_all add: eval_defs getPendingWithdrawal_def)

section \<open>The claims\<close>

text \<open>
  The error names of the specification are the revert reasons of the contract:
  \<open>ConflictError\<close> is \<open>''NGO already registered''\<close> in \<open>registerNGO\<close> and
  \<open>''Proof already added''\<close> in \<open>addProof\<close>, \<open>NotApprovedError\<close> is
  \<open>''NGO is not approved''\<close>, \<open>TransferFailedError\<close> is \<open>''Withdrawal failed''\<close>.
\<close>

text \<open>
  \<^bold>\<open>C1\<close> (conservation). For every address \<open>a\<close>, in every reachable storage, the
  withdrawn total is at most the received total, and the pending balance plus the
  withdrawn total is the received total. The pending balance is a \<open>uint256\<close>: it is
  never negative, and the subtraction in \<open>withdraw\<close> never wraps.
\<close>

theorem conservation:
  "totalWithdrawn (ngos (run (constructor d) txs) a)
     \<le> totalReceived (ngos (run (constructor d) txs) a)
   \<and> getPendingWithdrawal (run (constructor d) txs) a
       + totalWithdrawn (ngos (run (constructor d) txs) a)
     = totalReceived (ngos (run (constructor d) txs) a)
   \<and> 0 \<le> getPendingWithdrawal (run (constructor d) txs) a"
proof -
  have "pendingWithdrawals (run (constructor d) txs) a
      + totalWithdrawn (ngos (run (constructor d) txs) a)
      = totalReceived (ngos (run (constructor d) txs) a)"
    using reachable_accounts [of d txs] by (simp add: accounts_ok_def)
  then show ?thesis by (simp add: getPendingWithdrawal_def)
qed

theorem conservation_witness:
  "getPendingWithdrawal (run (constructor 1) alpha_reentered) 2 = 30
   \<and> totalWithdrawn (ngos (run (constructor 1) alpha_reentered) 2) = 70
   \<and> totalReceived (ngos (run (constructor 1) alpha_reentered) 2) = 100
   \<and> getPendingWithdrawal (run (constructor 1) alpha_reentered) 2
       + totalWithdrawn (ngos (run (constructor 1) alpha_reentered) 2)
     = totalReceived (ngos (run (constructor 1) alpha_reentered) 2)"
  using conservation [of 1 alpha_reentered 2]
  by (simp add: eval_defs getPendingWithdrawal_def)

text \<open>
  \<^bold>\<open>C2\<close> (donation ids). In every reachable storage the ids of the donations
  created so far are \<open>1, 2, ..., nextDonationId - 1\<close> in this order, each stored under
  its own id. A \<open>donate\<close> that returns takes the id \<open>nextDonationId\<close> and advances
  the counter by one; a \<open>donate\<close> to an unknown or unapproved organization, or with no
  value, reverts and leaves the counter as it was.
\<close>

theorem donation_ids_dense:
  "donationIds (run (constructor d) txs) = [1 ..< nextDonationId (run (constructor d) txs)]
   \<and> map (\<lambda>i. id' (donations (run (constructor d) txs) i)) (donationIds (run (constructor d) txs))
       = donationIds (run (constructor d) txs)
   \<and> (exec s c (Donate a m v) = Inr s' \<longrightarrow>
        donationIds s' = donationIds s @ [nextDonationId s]
        \<and> nextDonationId s' = nextDonationId s + 1)
   \<and> (\<not> exists (ngos s a) \<or> \<not> approved (ngos s a) \<or> \<not> 0 < v \<longrightarrow>
        (\<exists>e. exec s c (Donate a m v) = Inl e)
        \<and> nextDonationId (apply_tx s c (Donate a m v)) = nextDonationId s)"
proof (intro conjI impI)
  show ids: "donationIds (run (constructor d) txs) = [1 ..< nextDonationId (run (constructor d) txs)]"
    using reachable_ids [of d txs] by (simp add: ids_ok_def)
  have "id' (donations (run (constructor d) txs) i) = i"
    if "i \<in> set (donationIds (run (constructor d) txs))" for i
    using ids_ok_slot [OF reachable_ids, of i d txs] that by (simp add: ids)
  then show "map (\<lambda>i. id' (donations (run (constructor d) txs) i)) (donationIds (run (constructor d) txs))
       = donationIds (run (constructor d) txs)"
    by (simp add: map_idI)
next
  assume "exec s c (Donate a m v) = Inr s'"
  then have "donate s c a m v = Inr s'" by simp
  from donate_Inr [OF this]
  show "donationIds s' = donationIds s @ [nextDonationId s]"
    and "nextDonationId s' = nextDonationId s + 1"
    by simp_all
next
  assume bad: "\<not> exists (ngos s a) \<or> \<not> approved (ngos s a) \<or> \<not> 0 < v"
  then show e: "\<exists>e. exec s c (Donate a m v) = Inl e"
    by (auto simp: donate_def)
  then show "nextDonationId (apply_tx s c (Donate a m v)) = nextDonationId s"
    by (auto simp: exec_Inl_apply_tx)
qed

theorem donation_ids_dense_witness:
  "donationIds (run (constructor 1) alpha_funded) = [1]
   \<and> nextDonationId (run (constructor 1) alpha_funded) = 2
   \<and> exec (run (constructor 1) (alpha_registered @ [(caller 1, ApproveNGO 2 True)]))
        (caller 3) (Donate 2 ''hi'' 100) = Inr (run (constructor 1) alpha_funded)
   \<and> donationIds (run (constructor 1) alpha_funded)
        = donationIds (run (constructor 1) (alpha_registered @ [(caller 1, ApproveNGO 2 True)])) @ [1]
   \<and> \<not> approved (ngos (run (constructor 1) alpha_registered) 2)
   \<and> (\<exists>e. exec (run (constructor 1) alpha_registered) (caller 3) (Donate 2 ''hi'' 100) = Inl e)
   \<and> nextDonationId (apply_tx (run (constructor 1) alpha_registered) (caller 3) (Donate 2 ''hi'' 100)) = 1"
  using donation_ids_dense [of 1 alpha_funded
      "run (constructor 1) (alpha_registered @ [(caller 1, ApproveNGO 2 True)])"
      "caller 3" 2 "''hi''" 100 "run (constructor 1) alpha_funded"]
    donation_ids_dense [of 1 alpha_funded "run (constructor 1) alpha_registered"
      "caller 3" 2 "''hi''" 100 "run (constructor 1) alpha_funded"]
  by (simp add: eval_defs)

text \<open>
  \<^bold>\<open>C3\<close> (failed payout). In a reachable storage, when an approved organization
  withdraws \<open>0 < amount \<le> pending\<close> and the payout fails, \<open>withdraw\<close> reverts with
  \<open>''Withdrawal failed''\<close>; the debit made before the external call is undone with the
  rest of the call, so the pending balance and both totals are those before the call.
\<close>

theorem withdraw_failed_payout_restores:
  assumes "s = run (constructor d) txs"
    and "exists (ngos s (msg_sender c)) \<and> approved (ngos s (msg_sender c))"
    and "0 < amnt" and "amnt \<le> getPendingWithdrawal s (msg_sender c)"
  shows "exec s c (Withdraw amnt PayoutFails) = Inl (Revert ''Withdrawal failed'')
    \<and> apply_tx s c (Withdraw amnt PayoutFails) = s
    \<and> getPendingWithdrawal (apply_tx s c (Withdraw amnt PayoutFails)) (msg_sender c)
        = getPendingWithdrawal s (msg_sender c)
    \<and> totalWithdrawn (ngos (apply_tx s c (Withdraw amnt PayoutFails)) (msg_sender c))
        = totalWithdrawn (ngos s (msg_sender c))
    \<and> totalReceived (ngos (apply_tx s c (Withdraw amnt PayoutFails)) (msg_sender c))
        = totalReceived (ngos s (msg_sender c))"
proof -
  let ?a = "msg_sender c"
  have acc: "accounts_ok s"
    unfolding assms(1) by (rule reachable_accounts)
  then have "pendingWithdrawals s ?a + totalWithdrawn (ngos s ?a) = totalReceived (ngos s ?a)"
    and "totalReceived (ngos s ?a) \<le> uint256_max"
    by (simp_all add: accounts_ok_def)
  with assms(4) have tw: "totalWithdrawn (ngos s ?a) + amnt \<le> uint256_max"
    by (simp add: getPendingWithdrawal_def)
  have "withdraw s c amnt PayoutFails = Inl (Revert ''Withdrawal failed'')"
    using assms(2,3,4) tw
    by (simp add: withdraw.simps checked_sub_def checked_add_def getPendingWithdrawal_def)
  then have e: "exec s c (Withdraw amnt PayoutFails) = Inl (Revert ''Withdrawal failed'')"
    by simp
  from exec_Inl_apply_tx [OF e] e show ?thesis by simp
qed

theorem withdraw_failed_payout_restores_witness:
  "exists (ngos (run (constructor 1) alpha_funded) (msg_sender (caller 2)))
   \<and> approved (ngos (run (constructor 1) alpha_funded) (msg_sender (caller 2)))
   \<and> (40::nat) \<le> getPendingWithdrawal (run (constructor 1) alpha_funded) (msg_sender (caller 2))
   \<and> exec (run (constructor 1) alpha_funded) (caller 2) (Withdraw 40 PayoutFails)
       = Inl (Revert ''Withdrawal failed'')
   \<and> getPendingWithdrawal
        (apply_tx (run (constructor 1) alpha_funded) (caller 2) (Withdraw 40 PayoutFails)) 2 = 100
   \<and> totalWithdrawn (ngos
        (apply_tx (run (constructor 1) alpha_funded) (caller 2) (Withdraw 40 PayoutFails)) 2) = 0"
proof -
  have h2: "exists (ngos (run (constructor 1) alpha_funded) (msg_sender (caller 2)))
      \<and> approved (ngos (run (constructor 1) alpha_funded) (msg_sender (caller 2)))"
    by (simp add: eval_defs)
  have h3: "0 < (40::nat)" by simp
  have h4: "(40::nat) \<le> getPendingWithdrawal (run (constructor 1) alpha_funded) (msg_sender (caller 2))"
    by (simp add: eval_defs getPendingWithdrawal_def)
  have v: "getPendingWithdrawal (run (constructor 1) alpha_funded) 2 = 100"
    "totalWithdrawn (ngos (run (constructor 1) alpha_funded) 2) = 0"
    by (simp_all add: eval_defs getPendingWithdrawal_def)
  from withdraw_failed_payout_restores [OF refl h2 h3 h4] h2 h4 v show ?thesis
    by simp
qed

text \<open>
  \<^bold>\<open>C4\<close> (custody). The claim is that \<open>getContractBalance\<close> is the sum of the
  pending balances in every reachable storage. It is not: after a donation of 100 and
  7 wei forced on the contract, the contract holds 107 and the pending balances sum
  to 100.
\<close>

theorem custody_exceeds_pending:
  "getContractBalance (run (constructor 1) alpha_forced) = 107
   \<and> sum_list (map (getPendingWithdrawal (run (constructor 1) alpha_forced))
         (getAllNGOs (run (constructor 1) alpha_forced))) = 100"
  by (simp add: eval_defs getContractBalance_def getAllNGOs_def getPendingWithdrawal_def)

text \<open>
  \<^bold>\<open>C4\<close>, as the contract has it: in every reachable storage \<open>getContractBalance\<close>
  is at least the sum of the pending balances of the registered organizations, and it
  is exactly that sum when no ether was forced on the contract; each organization is
  listed once, and an address that is not listed has no pending balance.
\<close>

theorem custody_covers_pending:
  "sum_list (map (getPendingWithdrawal (run (constructor d) txs))
       (getAllNGOs (run (constructor d) txs)))
     \<le> getContractBalance (run (constructor d) txs)
   \<and> (unforced_txs txs \<longrightarrow>
        getContractBalance (run (constructor d) txs)
          = sum_list (map (getPendingWithdrawal (run (constructor d) txs))
              (getAllNGOs (run (constructor d) txs))))
   \<and> distinct (getAllNGOs (run (constructor d) txs))
   \<and> (a \<in> set (getAllNGOs (run (constructor d) txs))
        \<or> getPendingWithdrawal (run (constructor d) txs) a = 0)"
proof (intro conjI impI)
  show "sum_list (map (getPendingWithdrawal (run (constructor d) txs))
       (getAllNGOs (run (constructor d) txs)))
     \<le> getContractBalance (run (constructor d) txs)"
    using reachable_balance [of d txs]
    by (simp add: getContractBalance_def getPendingWithdrawal_eq getAllNGOs_def total_pending_def)
  show "getContractBalance (run (constructor d) txs)
          = sum_list (map (getPendingWithdrawal (run (constructor d) txs))
              (getAllNGOs (run (constructor d) txs)))" if "unforced_txs txs"
    using reachable_balance_unforced [OF that, of d]
    by (simp add: getContractBalance_def getPendingWithdrawal_eq getAllNGOs_def total_pending_def)
  show "distinct (getAllNGOs (run (constructor d) txs))"
    using reachable_registry [of d txs] by (simp add: registry_ok_def getAllNGOs_def)
  show "a \<in> set (getAllNGOs (run (constructor d) txs))
        \<or> getPendingWithdrawal (run (constructor d) txs) a = 0"
    using reachable_registry [of d txs] reachable_accounts [of d txs]
    by (auto simp: registry_ok_def accounts_ok_def getAllNGOs_def getPendingWithdrawal_def)
qed

theorem custody_covers_pending_witness:
  "unforced_txs alpha_reentered
   \<and> getContractBalance (run (constructor 1) alpha_reentered) = 30
   \<and> getAllNGOs (run (constructor 1) alpha_reentered) = [2]
   \<and> getPendingWithdrawal (run (constructor 1) alpha_reentered) 2 = 30
   \<and> getContractBalance (run (constructor 1) alpha_reentered)
     = sum_list (map (getPendingWithdrawal (run (constructor 1) alpha_reentered))
         (getAllNGOs (run (constructor 1) alpha_reentered)))
   \<and> \<not> unforced_txs alpha_forced
   \<and> sum_list (map (getPendingWithdrawal (run (constructor 1) alpha_forced))
         (getAllNGOs (run (constructor 1) alpha_forced)))
     \<le> getContractBalance (run (constructor 1) alpha_forced)"
proof -
  have u: "unforced_txs alpha_reentered" "\<not> unforced_txs alpha_forced"
    by (simp_all add: eval_defs)
  have v: "getContractBalance (run (constructor 1) alpha_reentered) = 30"
    "getAllNGOs (run (constructor 1) alpha_reentered) = [2]"
    "getPendingWithdrawal (run (constructor 1) alpha_reentered) 2 = 30"
    by (simp_all add: eval_defs getContractBalance_def getAllNGOs_def getPendingWithdrawal_def)
  from custody_covers_pending [of 1 alpha_reentered 2]
    custody_covers_pending [of 1 alpha_forced 2] u v
  show ?thesis by simp
qed

text \<open>
  \<^bold>\<open>C5\<close> (donation to an unapproved organization). \<open>donate\<close> to a registered
  organization that is not approved reverts with \<open>''NGO is not approved''\<close>, whatever
  the value sent: no record is stored, the totals and the pending balance of the
  organization stay, and the counter does not advance.
\<close>

theorem donate_unapproved_rejected:
  assumes "exists (ngos s a)" and "\<not> approved (ngos s a)"
  shows "exec s c (Donate a m v) = Inl (Revert ''NGO is not approved'')
    \<and> apply_tx s c (Donate a m v) = s
    \<and> donations (apply_tx s c (Donate a m v)) = donations s
    \<and> donationIds (apply_tx s c (Donate a m v)) = donationIds s
    \<and> totalReceived (ngos (apply_tx s c (Donate a m v)) a) = totalReceived (ngos s a)
    \<and> getPendingWithdrawal (apply_tx s c (Donate a m v)) a = getPendingWithdrawal s a
    \<and> nextDonationId (apply_tx s c (Donate a m v)) = nextDonationId s"
proof -
  have e: "exec s c (Donate a m v) = Inl (Revert ''NGO is not approved'')"
    using assms by (simp add: donate_def)
  from exec_Inl_apply_tx [OF e] e show ?thesis by simp
qed

theorem donate_unapproved_rejected_witness:
  "exists (ngos (run (constructor 1) alpha_registered) 2)
   \<and> \<not> approved (ngos (run (constructor 1) alpha_registered) 2)
   \<and> exec (run (constructor 1) alpha_registered) (caller 3) (Donate 2 ''hi'' 100)
       = Inl (Revert ''NGO is not approved'')
   \<and> nextDonationId (apply_tx (run (constructor 1) alpha_registered) (caller 3) (Donate 2 ''hi'' 100)) = 1
   \<and> donationIds (apply_tx (run (constructor 1) alpha_registered) (caller 3) (Donate 2 ''hi'' 100)) = []"
proof -
  have h1: "exists (ngos (run (constructor 1) alpha_registered) 2)"
    and h2: "\<not> approved (ngos (run (constructor 1) alpha_registered) 2)"
    by (simp_all add: eval_defs)
  have v: "nextDonationId (run (constructor 1) alpha_registered) = 1"
    "donationIds (run (constructor 1) alpha_registered) = []"
    by (simp_all add: eval_defs)
  from donate_unapproved_rejected [OF h1 h2, of "caller 3" "''hi''" 100] h1 h2 v
  show ?thesis by simp
qed

text \<open>
  \<^bold>\<open>C6\<close> (write-once proof). The claim is that \<open>addProof\<close> succeeds once per
  donation. The guard of \<open>addProof\<close> looks at the stored proof only: the recipient may
  attach the empty proof, which leaves the donation without proof, and then attach
  another. A proof that is not empty is final (\<open>proof_once_set_is_final\<close>). The
  history below is the scenario of the specification with an empty proof first.
\<close>

theorem addProof_accepted_twice:
  "exec (run (constructor 1) alpha_funded) (caller 2) (AddProof 1 [])
     = Inr (run (constructor 1) alpha_empty_proof)
   \<and> exec (run (constructor 1) alpha_empty_proof) (caller 2) (AddProof 1 ''cidXYZ'')
     \<noteq> Inl (Revert ''Proof already added'')
   \<and> proofCID (donations (run (constructor 1) alpha_empty_proof) 1) = []
   \<and> proofCID (donations (apply_tx (run (constructor 1) alpha_empty_proof) (caller 2)
        (AddProof 1 ''cidXYZ'')) 1) = ''cidXYZ''"
  by (simp add: eval_defs)

text \<open>
  \<^bold>\<open>C7\<close> (listing by organization). In every reachable storage
  \<open>getDonationsByNGO\<close> returns, without error, the ids of the donations whose record
  names the organization, in the order of their creation, which is the order of the ids.
\<close>

theorem getDonationsByNGO_lists_organization:
  "getDonationsByNGO (run (constructor d) txs) a
     = Inr (listDonationsByOrganization_spec (run (constructor d) txs) a)"
  using reachable_ids [of d txs]
  by (simp add: getDonationsByNGO_def getDonationsByNGO_scan_eq
      listDonationsByOrganization_spec_def ids_ok_def)

theorem getDonationsByNGO_lists_organization_witness:
  "getDonationsByNGO (run (constructor 1) two_organizations) 2 = Inr [1, 2]
   \<and> listDonationsByOrganization_spec (run (constructor 1) two_organizations) 2 = [1, 2]
   \<and> getDonationsByNGO (run (constructor 1) two_organizations) 4 = Inr []"
proof -
  have f2: "listDonationsByOrganization_spec (run (constructor 1) two_organizations) 2 = [1, 2]"
    by (simp add: listDonationsByOrganization_spec_def eval_defs upt_rec)
  have f4: "listDonationsByOrganization_spec (run (constructor 1) two_organizations) 4 = []"
    by (simp add: listDonationsByOrganization_spec_def eval_defs upt_rec)
  show ?thesis
    using getDonationsByNGO_lists_organization [of 1 two_organizations 2]
      getDonationsByNGO_lists_organization [of 1 two_organizations 4]
    by (simp only: f2 f4 simp_thms)
qed

text \<open>
  \<^bold>\<open>C8\<close> (second registration). \<open>registerNGO\<close> from an address that has a
  record reverts with \<open>''NGO already registered''\<close>, whatever the arguments; the record
  and the list of registered addresses stay as they were.
\<close>

theorem register_twice_rejected:
  assumes "exists (ngos s (msg_sender c))"
  shows "exec s c (RegisterNGO nm cid de w ct) = Inl (Revert ''NGO already registered'')
    \<and> apply_tx s c (RegisterNGO nm cid de w ct) = s
    \<and> ngos (apply_tx s c (RegisterNGO nm cid de w ct)) (msg_sender c) = ngos s (msg_sender c)
    \<and> getAllNGOs (apply_tx s c (RegisterNGO nm cid de w ct)) = getAllNGOs s"
proof -
  have e: "exec s c (RegisterNGO nm cid de w ct) = Inl (Revert ''NGO already registered'')"
    using assms by (simp add: registerNGO_def)
  from exec_Inl_apply_tx [OF e] e show ?thesis by simp
qed

theorem register_twice_rejected_witness:
  "exists (ngos (run (constructor 1) alpha_funded) (msg_sender (caller 2)))
   \<and> exec (run (constructor 1) alpha_funded) (caller 2)
        (RegisterNGO ''Alpha Two'' ''cid'' ''other'' ''web'' ''mail'')
       = Inl (Revert ''NGO already registered'')
   \<and> name (ngos (apply_tx (run (constructor 1) alpha_funded) (caller 2)
        (RegisterNGO ''Alpha Two'' ''cid'' ''other'' ''web'' ''mail'')) 2) = ''Alpha Relief''
   \<and> totalReceived (ngos (apply_tx (run (constructor 1) alpha_funded) (caller 2)
        (RegisterNGO ''Alpha Two'' ''cid'' ''other'' ''web'' ''mail'')) 2) = 100
   \<and> getAllNGOs (apply_tx (run (constructor 1) alpha_funded) (caller 2)
        (RegisterNGO ''Alpha Two'' ''cid'' ''other'' ''web'' ''mail'')) = [2]"
proof -
  have h: "exists (ngos (run (constructor 1) alpha_funded) (msg_sender (caller 2)))"
    by (simp add: eval_defs)
  have v: "name (ngos (run (constructor 1) alpha_funded) 2) = ''Alpha Relief''"
    "totalReceived (ngos (run (constructor 1) alpha_funded) 2) = 100"
    "getAllNGOs (run (constructor 1) alpha_funded) = [2]"
    by (simp_all add: eval_defs getAllNGOs_def)
  from register_twice_rejected [OF h, of "''Alpha Two''" "''cid''" "''other''" "''web''" "''mail''"] h v
  show ?thesis by simp
qed

text \<open>
  \<^bold>\<open>C9\<close> (how the listing is computed). The claim is that the listing is read
  from an index kept by \<open>donate\<close> and not found by scanning all donations. The
  storage has no such index, and \<open>getDonationsByNGO\<close> scans: for organization 4,
  which has no donation, it executes four loop bodies, two for each of the two
  donations made to organization 2.
\<close>

theorem listing_scans_all_donations:
  "getDonationsByNGO_scan (run (constructor 1) two_organizations) 4 = Inr ([], 4)
   \<and> getAllDonations (run (constructor 1) two_organizations) = [1, 2]"
  by (simp add: getDonationsByNGO_scan_eq getAllDonations_def eval_defs)

text \<open>
  \<^bold>\<open>C9\<close>, as the contract has it: in any storage, \<open>getDonationsByNGO\<close> passes
  twice over the list of all donation ids (\<open>2 * n\<close> loop bodies for \<open>n\<close> donations)
  and returns the ids of the organization in creation order, the content such an
  index would have.
\<close>

theorem getDonationsByNGO_double_scan:
  "getDonationsByNGO_scan s a =
     Inr (filter (\<lambda>i. ngo (donations s i) = a) (getAllDonations s),
          2 * length (getAllDonations s))"
  by (simp add: getDonationsByNGO_scan_eq getAllDonations_def)

theorem getDonationsByNGO_double_scan_witness:
  "getDonationsByNGO_scan (run (constructor 1) two_organizations) 2 = Inr ([1, 2], 4)"
  using getDonationsByNGO_double_scan [of "run (constructor 1) two_organizations" 2]
  by (simp add: getAllDonations_def eval_defs)

text \<open>
  \<^bold>\<open>C10\<close> (empty proof). When the approved recipient of an existing donation
  without proof calls \<open>addProof\<close> with the empty proof, the call returns and emits
  \<open>ProofAdded\<close>, the stored proof stays empty, and a further \<open>addProof\<close> by the same
  caller returns again and stores its argument.
\<close>

theorem addProof_empty_repeatable:
  assumes "exists (ngos s (msg_sender c)) \<and> approved (ngos s (msg_sender c))"
    and "id' (donations s i) \<noteq> 0" and "ngo (donations s i) = msg_sender c"
    and "proofCID (donations s i) = []"
  shows "\<exists>s'. exec s c (AddProof i []) = Inr s'
      \<and> events s' = events s @ [ProofAdded i []]
      \<and> proofCID (donations s' i) = []
      \<and> (\<exists>s''. exec s' c (AddProof i cid) = Inr s'' \<and> proofCID (donations s'' i) = cid)"
  using assms by (simp add: addProof_def emit_def)

theorem addProof_empty_repeatable_witness:
  "exists (ngos (run (constructor 1) alpha_funded) (msg_sender (caller 2)))
   \<and> approved (ngos (run (constructor 1) alpha_funded) (msg_sender (caller 2)))
   \<and> id' (donations (run (constructor 1) alpha_funded) 1) \<noteq> 0
   \<and> ngo (donations (run (constructor 1) alpha_funded) 1) = msg_sender (caller 2)
   \<and> proofCID (donations (run (constructor 1) alpha_funded) 1) = []
   \<and> (\<exists>s'. exec (run (constructor 1) alpha_funded) (caller 2) (AddProof 1 []) = Inr s'
        \<and> events s' = events (run (constructor 1) alpha_funded) @ [ProofAdded 1 []]
        \<and> proofCID (donations s' 1) = []
        \<and> (\<exists>s''. exec s' (caller 2) (AddProof 1 ''cidXYZ'') = Inr s''
              \<and> proofCID (donations s'' 1) = ''cidXYZ''))"
proof -
  have h1: "exists (ngos (run (constructor 1) alpha_funded) (msg_sender (caller 2)))
      \<and> approved (ngos (run (constructor 1) alpha_funded) (msg_sender (caller 2)))"
    by (simp add: eval_defs)
  have h2: "id' (donations (run (constructor 1) alpha_funded) 1) \<noteq> 0"
    by (simp add: eval_defs)
  have h3: "ngo (donations (run (constructor 1) alpha_funded) 1) = msg_sender (caller 2)"
    by (simp add: eval_defs)
  have h4: "proofCID (donations (run (constructor 1) alpha_funded) 1) = []"
    by (simp add: eval_defs)
  from addProof_empty_repeatable [OF h1 h2 h3 h4, of "''cidXYZ''"] h1 h2 h3 h4
  show ?thesis by blast
qed

end
